theory Spec2Isabelle
  imports Main
begin

section \<open>The observer registry of \<open>app/logger.py\<close>\<close>

text \<open>
  A log message is the text of one record. An exception is an instance of \<open>Exception\<close>,
  or of another subclass of \<open>BaseException\<close> (such as \<open>KeyboardInterrupt\<close>,
  \<open>SystemExit\<close> or \<open>asyncio.CancelledError\<close>), together with the text that \<open>str(e)\<close>
  gives. A callback is a Python callable invoked with the message: it acts on some world
  \<open>'w\<close> and either returns normally or raises; the world it leaves behind is kept in
  both cases, as a Python callable's side effects are.
\<close>

type_synonym msg = string

datatype exn = Exception (exn_text: string) | BaseException (exn_text: string)

type_synonym 'w callback = "msg \<Rightarrow> 'w \<Rightarrow> exn option \<times> 'w"

text \<open>
  \<open>_log_callbacks\<close> is a Python list whose entries are callables or \<open>None\<close>.
\<close>

type_synonym 'w registry = "'w callback option list"

text \<open>
  \<open>add_log_callback\<close>: append, then return \<open>len(_log_callbacks) - 1\<close>, computed on
  the list after the append.
\<close>

definition add_log_callback :: "'w registry \<Rightarrow> 'w callback \<Rightarrow> 'w registry \<times> int" where
  "add_log_callback cbs callback =
     (let cbs' = cbs @ [Some callback] in (cbs', int (length cbs') - 1))"

text \<open>
  \<open>remove_log_callback\<close>: the guarded store \<open>_log_callbacks[callback_id] = None\<close>.
  The guard \<open>0 <= callback_id < len(_log_callbacks)\<close> is on a Python int, which may
  be negative.
\<close>

definition remove_log_callback :: "'w registry \<Rightarrow> int \<Rightarrow> 'w registry" where
  "remove_log_callback cbs callback_id =
     (if 0 \<le> callback_id \<and> callback_id < int (length cbs)
      then cbs[nat callback_id := None]
      else cbs)"

text \<open>
  The loop of \<open>_intercept_message\<close>: every entry in list order, \<open>None\<close> entries
  skipped (the test \<open>if callback\<close> is true of every function object). The source has
  no \<open>try\<close> around the call, so a callback that raises ends the loop there and the
  exception leaves the function.
\<close>

fun dispatch :: "'w registry \<Rightarrow> msg \<Rightarrow> 'w \<Rightarrow> exn option \<times> 'w" where
  "dispatch [] message w = (None, w)"
| "dispatch (None # cbs) message w = dispatch cbs message w"
| "dispatch (Some callback # cbs) message w =
     (case callback message w of
        (Some e, w') \<Rightarrow> (Some e, w')
      | (None, w') \<Rightarrow> dispatch cbs message w')"

text \<open>
  A log record, of which the registry reads the \<open>message\<close> field only;
  \<open>_intercept_message\<close> returns the record it was given.
\<close>

record log_record =
  message :: msg
  level_no :: nat

definition intercept_message ::
  "'w registry \<Rightarrow> log_record \<Rightarrow> 'w \<Rightarrow> (exn + log_record) \<times> 'w" where
  "intercept_message cbs r w =
     (case dispatch cbs (message r) w of
        (Some e, w') \<Rightarrow> (Inl e, w')
      | (None, w') \<Rightarrow> (Inr r, w'))"

subsection \<open>Sequences of registry operations\<close>

datatype 'w registry_op = Register "'w callback" | Unregister int

text \<open>
  Running a sequence of operations, collecting the handle each registration returns.
\<close>

fun run_ops :: "'w registry \<Rightarrow> 'w registry_op list \<Rightarrow> 'w registry \<times> int list" where
  "run_ops cbs [] = (cbs, [])"
| "run_ops cbs (Register c # ops) =
     (case add_log_callback cbs c of
        (cbs', h) \<Rightarrow> (case run_ops cbs' ops of (cbs'', hs) \<Rightarrow> (cbs'', h # hs)))"
| "run_ops cbs (Unregister h # ops) = run_ops (remove_log_callback cbs h) ops"

fun registrations :: "'w registry_op list \<Rightarrow> nat" where
  "registrations [] = 0"
| "registrations (Register c # ops) = Suc (registrations ops)"
| "registrations (Unregister h # ops) = registrations ops"

subsection \<open>Observing the invocations of one dispatch\<close>

text \<open>
  To count invocations, each callback is wrapped so that it first notes its slot index and
  the message it was handed, then behaves as before. The wrapper changes neither the
  result of the callback nor what it does to the world.
\<close>

definition traced :: "nat \<Rightarrow> 'w callback \<Rightarrow> ((nat \<times> msg) list \<times> 'w) callback" where
  "traced i callback m s =
     (case callback m (snd s) of (r, w') \<Rightarrow> (r, (fst s @ [(i, m)], w')))"

fun instrument :: "nat \<Rightarrow> 'w registry \<Rightarrow> ((nat \<times> msg) list \<times> 'w) registry" where
  "instrument i [] = []"
| "instrument i (c # cbs) = map_option (traced i) c # instrument (Suc i) cbs"

definition invocations :: "'w registry \<Rightarrow> msg \<Rightarrow> 'w \<Rightarrow> (nat \<times> msg) list" where
  "invocations cbs m w = fst (snd (dispatch (instrument 0 cbs) m ([], w)))"

text \<open>The slots that hold a callback, in list order.\<close>

definition active_slots :: "'w registry \<Rightarrow> nat list" where
  "active_slots cbs = [i \<leftarrow> [0 ..< length cbs]. cbs ! i \<noteq> None]"

text \<open>Three callbacks to run the definitions on.\<close>

definition noop_callback :: "'w callback" where
  "noop_callback m w = (None, w)"

definition failing_callback :: "exn \<Rightarrow> 'w callback" where
  "failing_callback e m w = (Some e, w)"

definition recording_callback :: "nat \<Rightarrow> (nat \<times> msg) list callback" where
  "recording_callback k m w = (None, w @ [(k, m)])"

section \<open>The stream driver of \<open>main.py\<close>\<close>

subsection \<open>Strings\<close>

text \<open>
  \<open>str.strip()\<close> with no argument removes leading and trailing whitespace. A prompt
  is taken as a string of code points below 256, of which Python counts as whitespace
  9 to 13, 28 to 32, 133 and 160.
\<close>

definition isspace :: "char \<Rightarrow> bool" where
  "isspace c = (of_char c \<in> {9, 10, 11, 12, 13, 28, 29, 30, 31, 32, 133, 160 :: nat})"

definition strip :: "string \<Rightarrow> string" where
  "strip s = rev (dropWhile isspace (rev (dropWhile isspace s)))"

text \<open>An outbound frame, \<open>f"data: {text}\n\n"\<close>.\<close>

definition frame :: "string \<Rightarrow> string" where
  "frame text = ''data: '' @ text @ [CHR 0x0A, CHR 0x0A]"

subsection \<open>The event loop as far as the driver sees it\<close>

text \<open>
  \<open>log_callback\<close> does not enqueue: it calls \<open>asyncio.create_task(queue.put(message))\<close>,
  which creates a task that the event loop runs later. The world of the callbacks
  therefore holds the put tasks created and not yet run, in creation order, next to the
  contents of each queue. A queue is identified by a number.
\<close>

record world =
  pending :: "(nat \<times> msg) list"
  queues :: "nat \<Rightarrow> msg list"

definition idle_world :: world where
  "idle_world = \<lparr>pending = [], queues = (\<lambda>q. [])\<rparr>"

definition log_callback :: "nat \<Rightarrow> world callback" where
  "log_callback q m w = (None, w\<lparr>pending := pending w @ [(q, m)]\<rparr>)"

text \<open>
  The event loop runs the oldest put task: the queues are unbounded, so \<open>put\<close> appends
  at once.
\<close>

definition run_put :: "world \<Rightarrow> world" where
  "run_put w =
     (case pending w of
        [] \<Rightarrow> w
      | (q, m) # rest \<Rightarrow> w\<lparr>pending := rest, queues := (queues w)(q := queues w q @ [m])\<rparr>)"

subsection \<open>The agent\<close>

text \<open>
  Modelled from the spec: the agent class \<open>Manus\<close> of \<open>app.agent.manus\<close> is not among
  the sources. The spec treats it as an opaque collaborator that exposes only
  \<open>run(prompt)\<close> and \<open>cleanup()\<close> and that emits log lines while it runs. The coroutine
  \<open>agent.run(prompt)\<close> is taken as a parameter: a finite sequence of log emissions and
  suspension points that ends by returning or by raising.
\<close>

datatype agent_prog = Return | Raise exn | Log msg agent_prog | Suspend agent_prog

text \<open>
  The state of the \<open>asyncio.Task\<close> made from it; \<open>NotCreated\<close> before
  \<open>asyncio.create_task\<close> has been reached.
\<close>

datatype task = NotCreated | Running agent_prog | DoneOk | DoneExn exn

fun task_done :: "task \<Rightarrow> bool" where
  "task_done DoneOk = True"
| "task_done (DoneExn e) = True"
| "task_done t = False"

text \<open>
  One uninterrupted stretch of the agent, up to its next suspension point or its end. A
  log call of the agent goes through the registry like any other; an exception that a
  callback raises there comes out of the agent's log call and ends the run.
\<close>

fun run_agent :: "agent_prog \<Rightarrow> world registry \<Rightarrow> world \<Rightarrow> task \<times> world" where
  "run_agent Return cbs w = (DoneOk, w)"
| "run_agent (Raise e) cbs w = (DoneExn e, w)"
| "run_agent (Suspend k) cbs w = (Running k, w)"
| "run_agent (Log m k) cbs w =
     (case dispatch cbs m w of
        (Some e, w') \<Rightarrow> (DoneExn e, w')
      | (None, w') \<Rightarrow> run_agent k cbs w')"

subsection \<open>The generator \<open>event_stream\<close>\<close>

text \<open>
  The generator is suspended at one of its \<open>yield\<close>s or \<open>await\<close>s, or it has finished,
  possibly with an exception that left it.
\<close>

datatype pc =
    AtGet \<comment> \<open>in \<open>await asyncio.wait_for(queue.get(), timeout=0.1)\<close>\<close>
  | AtYieldMessage \<comment> \<open>at the \<open>yield\<close> inside the loop\<close>
  | AtAwaitAgent \<comment> \<open>in \<open>await agent_task\<close>\<close>
  | AtYieldTerminal \<comment> \<open>at one of the three \<open>yield\<close>s that the \<open>finally\<close> block follows\<close>
  | Finished "exn option"

text \<open>What the generator does that others can observe, with the \<open>yield\<close> it came from.\<close>

datatype yield_site = EmptyPromptFrame | MessageFrame | CompletedFrame | ErrorFrame

datatype effect = Yielded yield_site string | Unregistered int | CleanupCalled

record state =
  callbacks :: "world registry"
  evloop :: world
  qid :: nat
  callback_id :: int
  agent_task :: task
  pc :: pc
  effects :: "effect list"

text \<open>
  A call \<open>logger.info(text)\<close> (or \<open>warning\<close>, \<open>error\<close>) of the driver. The module's
  logger is the patched one at its initial configuration, so the record passes through
  \<open>_intercept_message\<close>.
\<close>

definition logger_call :: "nat \<Rightarrow> msg \<Rightarrow> state \<Rightarrow> exn option \<times> state" where
  "logger_call lvl text s =
     (case intercept_message (callbacks s) \<lparr>message = text, level_no = lvl\<rparr> (evloop s) of
        (Inl e, w') \<Rightarrow> (Some e, s\<lparr>evloop := w'\<rparr>)
      | (Inr r, w') \<Rightarrow> (None, s\<lparr>evloop := w'\<rparr>))"

definition yield_frame :: "yield_site \<Rightarrow> string \<Rightarrow> pc \<Rightarrow> state \<Rightarrow> state" where
  "yield_frame site text next s =
     s\<lparr>effects := effects s @ [Yielded site (frame text)], pc := next\<rparr>"

text \<open>
  The \<open>finally\<close> block: \<open>remove_log_callback(callback_id)\<close>, then
  \<open>await agent.cleanup()\<close>, whatever brought the generator there.
\<close>

definition finally_block :: "exn option \<Rightarrow> state \<Rightarrow> state" where
  "finally_block escaping s =
     s\<lparr>callbacks := remove_log_callback (callbacks s) (callback_id s),
       effects := effects s @ [Unregistered (callback_id s), CleanupCalled],
       pc := Finished escaping\<rparr>"

text \<open>
  The body of the handler \<open>except Exception as e\<close>. An exception raised inside the
  handler, by its own log call, goes on through the \<open>finally\<close> block and out of the
  generator.
\<close>

definition except_block :: "exn \<Rightarrow> state \<Rightarrow> state" where
  "except_block e s =
     (let error_msg = ''An error occurred: '' @ exn_text e in
      case logger_call 40 error_msg s of
        (Some e2, s') \<Rightarrow> finally_block (Some e2) s'
      | (None, s') \<Rightarrow> yield_frame ErrorFrame error_msg AtYieldTerminal s')"

text \<open>
  An exception raised inside the \<open>try\<close> block. The handler takes the instances of
  \<open>Exception\<close>; any other exception goes through the \<open>finally\<close> block and out of the
  generator.
\<close>

definition raised_in_try :: "exn \<Rightarrow> state \<Rightarrow> state" where
  "raised_in_try e s =
     (case e of
        Exception t \<Rightarrow> except_block e s
      | BaseException t \<Rightarrow> finally_block (Some e) s)"

text \<open>The final message: \<open>logger.info\<close>, then the \<open>yield\<close> of the same text.\<close>

definition final_message :: "state \<Rightarrow> state" where
  "final_message s =
     (case logger_call 20 ''Request processing completed.'' s of
        (Some e, s') \<Rightarrow> raised_in_try e s'
      | (None, s') \<Rightarrow>
          yield_frame CompletedFrame ''Request processing completed.'' AtYieldTerminal s')"

text \<open>After the loop: \<open>if not agent_task.done(): await agent_task\<close>.\<close>

definition after_loop :: "state \<Rightarrow> state" where
  "after_loop s =
     (if \<not> task_done (agent_task s) then s\<lparr>pc := AtAwaitAgent\<rparr> else final_message s)"

text \<open>The loop condition \<open>not agent_task.done() or not queue.empty()\<close>.\<close>

definition loop_head :: "state \<Rightarrow> state" where
  "loop_head s =
     (if \<not> task_done (agent_task s) \<or> queues (evloop s) (qid s) \<noteq> []
      then s\<lparr>pc := AtGet\<rparr>
      else after_loop s)"

text \<open>
  From the call of the generator to its first suspension. The new queue is identified by
  the slot its callback is about to take.
\<close>

definition event_stream_start :: "world registry \<Rightarrow> world \<Rightarrow> string \<Rightarrow> agent_prog \<Rightarrow> state" where
  "event_stream_start cbs w prompt prog =
     (let q = length cbs;
          (cbs', h) = add_log_callback cbs (log_callback q);
          s = \<lparr>callbacks = cbs', evloop = w\<lparr>queues := (queues w)(q := [])\<rparr>, qid = q,
               callback_id = h, agent_task = NotCreated, pc = AtGet, effects = []\<rparr>
      in if strip prompt = []
         then (case logger_call 30 ''Empty prompt provided.'' s of
                 (Some e, s') \<Rightarrow> raised_in_try e s'
               | (None, s') \<Rightarrow>
                   yield_frame EmptyPromptFrame ''Empty prompt provided.'' AtYieldTerminal s')
         else (case logger_call 20 ''Processing your request...'' s of
                 (Some e, s') \<Rightarrow> raised_in_try e s'
               | (None, s') \<Rightarrow> loop_head (s'\<lparr>agent_task := Running prog\<rparr>)))"

subsection \<open>Scheduling\<close>

text \<open>
  What the event loop may do next: run the oldest put task, run the agent up to its next
  suspension point, or resume the generator, with a message from its queue, with the
  timeout of \<open>wait_for\<close>, or from a \<open>yield\<close> or the awaited task. An event that does
  not apply leaves the state as it is.
\<close>

datatype event = RunPut | RunAgent | Deliver | Timeout | Resume

fun step :: "event \<Rightarrow> state \<Rightarrow> state" where
  "step RunPut s = s\<lparr>evloop := run_put (evloop s)\<rparr>"
| "step RunAgent s =
     (case agent_task s of
        Running prog \<Rightarrow>
          (case run_agent prog (callbacks s) (evloop s) of
             (t, w') \<Rightarrow> s\<lparr>agent_task := t, evloop := w'\<rparr>)
      | _ \<Rightarrow> s)"
| "step Deliver s =
     (case pc s of
        AtGet \<Rightarrow>
          (case queues (evloop s) (qid s) of
             [] \<Rightarrow> s
           | m # rest \<Rightarrow>
               yield_frame MessageFrame m AtYieldMessage
                 (s\<lparr>evloop := (evloop s)\<lparr>queues := (queues (evloop s))(qid s := rest)\<rparr>\<rparr>))
      | _ \<Rightarrow> s)"
| "step Timeout s =
     (case pc s of
        AtGet \<Rightarrow>
          (if task_done (agent_task s) \<and> queues (evloop s) (qid s) = []
           then after_loop s
           else loop_head s)
      | _ \<Rightarrow> s)"
| "step Resume s =
     (case pc s of
        AtYieldMessage \<Rightarrow> loop_head s
      | AtYieldTerminal \<Rightarrow> finally_block None s
      | AtAwaitAgent \<Rightarrow>
          (case agent_task s of
             DoneOk \<Rightarrow> final_message s
           | DoneExn e \<Rightarrow> raised_in_try e s
           | _ \<Rightarrow> s)
      | _ \<Rightarrow> s)"

fun run :: "event list \<Rightarrow> state \<Rightarrow> state" where
  "run [] s = s"
| "run (e # es) s = run es (step e s)"

text \<open>What the client receives, and whether the stream has closed.\<close>

fun frames_of :: "effect list \<Rightarrow> string list" where
  "frames_of [] = []"
| "frames_of (Yielded site f # es) = f # frames_of es"
| "frames_of (e # es) = frames_of es"

fun finished :: "state \<Rightarrow> bool" where
  "finished s = (case pc s of Finished x \<Rightarrow> True | _ \<Rightarrow> False)"

text \<open>No registered callback raises, whatever it is handed.\<close>

definition quiet :: "'w registry \<Rightarrow> bool" where
  "quiet cbs = (\<forall>c \<in> set cbs. \<forall>cb. c = Some cb \<longrightarrow> (\<forall>m w. fst (cb m w) = None))"

text \<open>
  The state of one connection after the event loop has gone through a schedule, from the
  call of the generator on.
\<close>

definition event_stream :: "world registry \<Rightarrow> world \<Rightarrow> string \<Rightarrow> agent_prog \<Rightarrow> event list \<Rightarrow> state" where
  "event_stream cbs w prompt prog sched = run sched (event_stream_start cbs w prompt prog)"


subsection \<open>The shape of what the generator has done\<close>


fun is_message_frame :: "effect \<Rightarrow> bool" where
  "is_message_frame (Yielded MessageFrame f) = True"
| "is_message_frame e = False"





definition streaming :: "nat \<Rightarrow> state \<Rightarrow> bool" where
  "streaming n s =
     (callback_id s = int n \<and> length (callbacks s) = Suc n
      \<and> list_all is_message_frame (effects s))"

text \<open>
  The two states a connection with a blank prompt can be in: at the \<open>yield\<close> of the
  one frame, or finished.
\<close>

definition empty_prompt_state :: "nat \<Rightarrow> state \<Rightarrow> bool" where
  "empty_prompt_state n s =
     (agent_task s = NotCreated \<and> callback_id s = int n
      \<and> (pc s = AtYieldTerminal
            \<and> effects s = [Yielded EmptyPromptFrame (frame ''Empty prompt provided.'')]
          \<or> pc s = Finished None
            \<and> effects s = [Yielded EmptyPromptFrame (frame ''Empty prompt provided.''),
                 Unregistered (int n), CleanupCalled]))"

text \<open>
  What a connection with a non-blank prompt has done when no callback raises: frames of
  the loop, then the completed frame, then the \<open>finally\<close> block.
\<close>

fun completed_shape :: "int \<Rightarrow> pc \<Rightarrow> effect list \<Rightarrow> bool" where
  "completed_shape h AtGet es = (\<exists>ms. es = map (Yielded MessageFrame) ms)"
| "completed_shape h AtYieldMessage es = (\<exists>ms. es = map (Yielded MessageFrame) ms)"
| "completed_shape h AtYieldTerminal es =
     (\<exists>ms. es = map (Yielded MessageFrame) ms
               @ [Yielded CompletedFrame (frame ''Request processing completed.'')])"
| "completed_shape h (Finished None) es =
     (\<exists>ms. es = map (Yielded MessageFrame) ms
               @ [Yielded CompletedFrame (frame ''Request processing completed.''),
                  Unregistered h, CleanupCalled])"
| "completed_shape h p es = False"

definition quiet_inv :: "nat \<Rightarrow> state \<Rightarrow> bool" where
  "quiet_inv n s =
     (quiet (callbacks s) \<and> callback_id s = int n
      \<and> completed_shape (int n) (pc s) (effects s))"

definition quiet_streaming :: "nat \<Rightarrow> state \<Rightarrow> bool" where
  "quiet_streaming n s =
     (quiet (callbacks s) \<and> callback_id s = int n
      \<and> (\<exists>ms. effects s = map (Yielded MessageFrame) ms))"

section \<open>The logger of \<open>app/logger.py\<close>\<close>

text \<open>
  The module builds its logger on the third-party library loguru, which is not part of
  the repository. What follows is taken from the documentation of that library: a logger
  object wraps a core that holds the handlers; \<open>add\<close> and \<open>remove\<close> change the handlers
  of the core, which every logger object made from it shares; \<open>patch\<close> returns a new
  logger object with one more patcher and leaves the object it is called on as it was; a
  log call whose level no handler admits ends before any patcher runs; otherwise the
  record goes through the patchers of the logger object the call was made on, in order.
\<close>

datatype level = TRACE | DEBUG | INFO | SUCCESS | WARNING | ERROR | CRITICAL

fun level_number :: "level \<Rightarrow> nat" where
  "level_number TRACE = 5"
| "level_number DEBUG = 10"
| "level_number INFO = 20"
| "level_number SUCCESS = 25"
| "level_number WARNING = 30"
| "level_number ERROR = 40"
| "level_number CRITICAL = 50"

text \<open>A handler is a sink with the least level it admits; the core is the list of handlers.\<close>

datatype sink = Stderr | LogFile string

record handler =
  handler_sink :: sink
  handler_level :: level

type_synonym core = "handler list"

text \<open>
  The one function the module ever passes to \<open>patch\<close> is \<open>_intercept_message\<close>. A
  logger object is known by the patchers it carries.
\<close>

datatype patcher = InterceptMessage

record py_logger =
  patchers :: "patcher list"

text \<open>\<open>_logger\<close>, the object imported from loguru, carries none.\<close>

definition base_logger :: py_logger where
  "base_logger = \<lparr>patchers = []\<rparr>"

definition patch :: "py_logger \<Rightarrow> patcher \<Rightarrow> py_logger" where
  "patch lg p = lg\<lparr>patchers := patchers lg @ [p]\<rparr>"

text \<open>\<open>_logger.remove()\<close> with no argument, and \<open>_logger.add(sink, level=...)\<close>.\<close>

definition remove_handlers :: "core \<Rightarrow> core" where
  "remove_handlers c = []"

definition add_handler :: "core \<Rightarrow> sink \<Rightarrow> level \<Rightarrow> core" where
  "add_handler c s l = c @ [\<lparr>handler_sink = s, handler_level = l\<rparr>]"

text \<open>
  \<open>define_log_level\<close>: remove all handlers, add the one for \<open>sys.stderr\<close> and the one
  for the log file, return \<open>_logger\<close>. The name of the log file, made from the prefix
  and the clock, is a parameter.
\<close>

definition define_log_level :: "level \<Rightarrow> level \<Rightarrow> string \<Rightarrow> core \<Rightarrow> core \<times> py_logger" where
  "define_log_level print_level logfile_level log_name c =
     (let c1 = remove_handlers c;
          c2 = add_handler c1 Stderr print_level;
          c3 = add_handler c2 (LogFile (''logs/'' @ log_name @ ''.log'')) logfile_level
      in (c3, base_logger))"

text \<open>
  The module-level \<open>logger\<close>: the value of \<open>define_log_level()\<close>, patched once with
  \<open>_intercept_message\<close>.
\<close>

definition module_logger :: py_logger where
  "module_logger = patch (snd (define_log_level INFO DEBUG [] [])) InterceptMessage"

text \<open>A sequence of calls of \<open>define_log_level\<close>, by what they do to the core.\<close>

fun reconfigure :: "(level \<times> level \<times> string) list \<Rightarrow> core \<Rightarrow> core" where
  "reconfigure [] c = c"
| "reconfigure ((p, f, n) # rs) c = reconfigure rs (fst (define_log_level p f n c))"

text \<open>A log call on a logger object.\<close>

fun run_patchers ::
  "patcher list \<Rightarrow> 'w registry \<Rightarrow> log_record \<Rightarrow> 'w \<Rightarrow> (exn + log_record) \<times> 'w" where
  "run_patchers [] cbs r w = (Inr r, w)"
| "run_patchers (InterceptMessage # ps) cbs r w =
     (case intercept_message cbs r w of
        (Inl e, w') \<Rightarrow> (Inl e, w')
      | (Inr r', w') \<Rightarrow> run_patchers ps cbs r' w')"

definition admitted :: "core \<Rightarrow> level \<Rightarrow> bool" where
  "admitted c lvl = list_ex (\<lambda>h. level_number (handler_level h) \<le> level_number lvl) c"

definition log_call ::
  "py_logger \<Rightarrow> core \<Rightarrow> 'w registry \<Rightarrow> level \<Rightarrow> msg \<Rightarrow> 'w \<Rightarrow> exn option \<times> 'w" where
  "log_call lg c cbs lvl text w =
     (if \<not> admitted c lvl then (None, w)
      else case run_patchers (patchers lg) cbs \<lparr>message = text, level_no = level_number lvl\<rparr> w of
             (Inl e, w') \<Rightarrow> (Some e, w')
           | (Inr r, w') \<Rightarrow> (None, w'))"


section \<open>Properties of the registry\<close>

lemma length_remove_log_callback [simp]:
  "length (remove_log_callback cbs h) = length cbs"
  by (simp add: remove_log_callback_def)

lemma length_add_log_callback [simp]:
  "length (fst (add_log_callback cbs c)) = Suc (length cbs)"
  by (simp add: add_log_callback_def Let_def)

lemma snd_add_log_callback [simp]:
  "snd (add_log_callback cbs c) = int (length cbs)"
  by (simp add: add_log_callback_def Let_def)

lemma run_ops_Register:
  "run_ops cbs (Register c # ops) =
     (fst (run_ops (cbs @ [Some c]) ops), int (length cbs) # snd (run_ops (cbs @ [Some c]) ops))"
  by (simp add: add_log_callback_def Let_def split: prod.splits)

lemma run_ops_handles:
  "snd (run_ops cbs ops) = map int [length cbs ..< length cbs + registrations ops]"
proof (induction ops arbitrary: cbs)
  case Nil
  show ?case by simp
next
  case (Cons a ops)
  show ?case
  proof (cases a)
    case (Register c)
    have ih: "snd (run_ops (cbs @ [Some c]) ops) =
        map int [Suc (length cbs) ..< Suc (length cbs) + registrations ops]"
      using Cons.IH [of "cbs @ [Some c]"] by simp
    have "[length cbs ..< length cbs + Suc (registrations ops)] =
        length cbs # [Suc (length cbs) ..< Suc (length cbs) + registrations ops]"
      by (simp add: upt_conv_Cons)
    then show ?thesis
      unfolding Register run_ops_Register using ih by simp
  next
    case (Unregister h)
    then show ?thesis using Cons.IH [of "remove_log_callback cbs h"] by simp
  qed
qed

lemma length_run_ops:
  "length (fst (run_ops cbs ops)) = length cbs + registrations ops"
proof (induction ops arbitrary: cbs)
  case Nil
  show ?case by simp
next
  case (Cons a ops)
  show ?case
  proof (cases a)
    case (Register c)
    show ?thesis
      unfolding Register run_ops_Register using Cons.IH [of "cbs @ [Some c]"] by simp
  next
    case (Unregister h)
    then show ?thesis using Cons.IH [of "remove_log_callback cbs h"] by simp
  qed
qed

subsection \<open>Unregistering\<close>

lemma remove_log_callback_out_of_range:
  "h < 0 \<or> int (length cbs) \<le> h \<Longrightarrow> remove_log_callback cbs h = cbs"
  by (auto simp: remove_log_callback_def)

lemma remove_log_callback_empty_slot:
  "0 \<le> h \<Longrightarrow> cbs ! nat h = None \<Longrightarrow> remove_log_callback cbs h = cbs"
  by (simp add: remove_log_callback_def list_update_same_conv)

lemma remove_log_callback_idem:
  "remove_log_callback (remove_log_callback cbs h) h = remove_log_callback cbs h"
  by (simp add: remove_log_callback_def)

lemma remove_log_callback_other:
  "j < length cbs \<Longrightarrow> int j \<noteq> h \<Longrightarrow> remove_log_callback cbs h ! j = cbs ! j"
  by (auto simp: remove_log_callback_def nth_list_update)

lemma remove_log_callback_slot:
  "0 \<le> h \<Longrightarrow> h < int (length cbs) \<Longrightarrow> remove_log_callback cbs h ! nat h = None"
  by (simp add: remove_log_callback_def)

text \<open>
  C7. Unregistering a handle sets its slot to \<open>None\<close> and removes nothing: the list keeps
  its length and every other slot keeps its content at its index. A handle that is
  negative, beyond the end of the list (so never issued), or whose slot is already
  \<open>None\<close> leaves the registry as it was; the function has no raising branch.
  Unregistering twice gives the registry that unregistering once gives.
\<close>

theorem remove_log_callback_tombstone:
  "length (remove_log_callback cbs h) = length cbs
   \<and> (\<forall>j < length cbs. int j \<noteq> h \<longrightarrow> remove_log_callback cbs h ! j = cbs ! j)
   \<and> (0 \<le> h \<and> h < int (length cbs) \<longrightarrow> remove_log_callback cbs h ! nat h = None)
   \<and> (h < 0 \<or> int (length cbs) \<le> h \<or> cbs ! nat h = None
        \<longrightarrow> remove_log_callback cbs h = cbs)
   \<and> remove_log_callback (remove_log_callback cbs h) h = remove_log_callback cbs h"
proof -
  have "h < 0 \<or> int (length cbs) \<le> h \<or> cbs ! nat h = None
      \<Longrightarrow> remove_log_callback cbs h = cbs"
    using remove_log_callback_out_of_range [of h cbs] remove_log_callback_empty_slot [of h cbs]
    by linarith
  then show ?thesis
    by (simp add: remove_log_callback_other remove_log_callback_slot remove_log_callback_idem)
qed

theorem remove_log_callback_tombstone_witness:
  "remove_log_callback [Some noop_callback, Some (failing_callback (Exception ''x'')), None :: unit callback option] 1 ! 0
     = [Some noop_callback, Some (failing_callback (Exception ''x'')), None] ! 0
   \<and> remove_log_callback [Some noop_callback, Some (failing_callback (Exception ''x'')), None :: unit callback option] 1 ! nat 1
     = None
   \<and> remove_log_callback [Some noop_callback, None :: unit callback option] 1
     = [Some noop_callback, None]
   \<and> remove_log_callback [Some noop_callback, None :: unit callback option] 7
     = [Some noop_callback, None]
   \<and> remove_log_callback [Some noop_callback, None :: unit callback option] (- 1)
     = [Some noop_callback, None]"
  using remove_log_callback_tombstone
      [of "[Some noop_callback, Some (failing_callback (Exception ''x'')), None :: unit callback option]" 1]
    remove_log_callback_tombstone [of "[Some noop_callback, None :: unit callback option]" 1]
    remove_log_callback_tombstone [of "[Some noop_callback, None :: unit callback option]" 7]
    remove_log_callback_tombstone [of "[Some noop_callback, None :: unit callback option]" "- 1"]
  by simp

subsection \<open>Handles\<close>

text \<open>
  C10. A registration returns the length of the list after the append, minus one. Over
  any sequence of registrations and unregistrations the handles handed out are the
  consecutive integers from the initial length on: each is above all earlier ones, none
  occurs twice, whatever was unregistered in between, and the next handle to be issued is
  none of them.
\<close>

theorem add_log_callback_fresh_handles:
  "snd (add_log_callback cbs c) = int (length (fst (add_log_callback cbs c))) - 1
   \<and> snd (run_ops cbs ops) = map int [length cbs ..< length cbs + registrations ops]
   \<and> sorted_wrt (<) (snd (run_ops cbs ops))
   \<and> distinct (snd (run_ops cbs ops))
   \<and> snd (add_log_callback (fst (run_ops cbs ops)) c) \<notin> set (snd (run_ops cbs ops))"
proof -
  have s: "sorted_wrt (<) (map int [length cbs ..< length cbs + registrations ops])"
    by (simp add: sorted_wrt_map sorted_wrt_upt [unfolded strict_sorted_iff] strict_sorted_iff)
  have d: "distinct (map int [length cbs ..< length cbs + registrations ops])"
    by (simp add: distinct_map)
  show ?thesis
    using s d by (auto simp: run_ops_handles length_run_ops)
qed

subsection \<open>Dispatch\<close>

lemma dispatch_append:
  "dispatch (pre @ post) m w =
     (case dispatch pre m w of
        (Some e, w') \<Rightarrow> (Some e, w')
      | (None, w') \<Rightarrow> dispatch post m w')"
proof (induction pre m w rule: dispatch.induct)
  case (1 message w)
  show ?case by simp
next
  case (2 cbs message w)
  then show ?case by simp
next
  case (3 callback cbs message w)
  show ?case
  proof (cases "callback message w")
    case (Pair r w')
    show ?thesis
    proof (cases r)
      case None
      then show ?thesis using Pair 3 by simp
    next
      case (Some e)
      then show ?thesis using Pair by simp
    qed
  qed
qed

text \<open>
  C2, the claim as stated, at a registry of two callbacks of which the first raises: the
  exception comes out of the interception step, and the second callback has not been
  handed the message (its record of deliveries is empty).
\<close>

theorem dispatch_exception_escapes:
  "intercept_message [Some (failing_callback (Exception ''boom'')), Some (recording_callback 1)]
      \<lparr>message = ''hello'', level_no = 20\<rparr> [] = (Inl (Exception ''boom''), [])"
  by (simp add: intercept_message_def failing_callback_def recording_callback_def)

text \<open>
  C2, amended. \<open>_intercept_message\<close> has no handler: when the callbacks before a slot
  return normally and the callback of that slot raises, the exception leaves the
  interception step, the world is the one the raising callback left, and the result is
  the same whatever the later slots hold, since none of them is invoked.
\<close>

theorem dispatch_stops_at_first_raise:
  assumes "dispatch pre m w = (None, w1)" and "callback m w1 = (Some e, w2)"
  shows "dispatch (pre @ Some callback # post) m w = (Some e, w2)
     \<and> intercept_message (pre @ Some callback # post) \<lparr>message = m, level_no = l\<rparr> w = (Inl e, w2)"
  using assms by (simp add: dispatch_append intercept_message_def)

theorem dispatch_stops_at_first_raise_witness:
  "dispatch [Some (recording_callback 0)] ''hello'' [] = (None, [(0, ''hello'')])
   \<and> failing_callback (Exception ''boom'') ''hello'' [(0, ''hello'')] = (Some (Exception ''boom''), [(0, ''hello'')])
   \<and> dispatch ([Some (recording_callback 0)] @ Some (failing_callback (Exception ''boom'')) # [Some (recording_callback 2)])
        ''hello'' [] = (Some (Exception ''boom''), [(0, ''hello'')])"
  using dispatch_stops_at_first_raise
    [of "[Some (recording_callback 0)]" "''hello''" "[]" "[(0, ''hello'')]"
        "failing_callback (Exception ''boom'')" "Exception ''boom''" "[(0, ''hello'')]" "[Some (recording_callback 2)]" 20]
  by (simp add: failing_callback_def recording_callback_def)

subsection \<open>Fan-out\<close>

lemma enumerate_filter:
  "map fst (filter (\<lambda>p. P (snd p)) (enumerate n xs)) = [i \<leftarrow> [n ..< n + length xs]. P (xs ! (i - n))]"
proof (induction xs arbitrary: n)
  case Nil show ?case by simp
next
  case (Cons x xs)
  have "[i \<leftarrow> [Suc n ..< Suc n + length xs]. P ((x # xs) ! (i - n))] = [i \<leftarrow> [Suc n ..< Suc n + length xs]. P (xs ! (i - Suc n))]"
  proof (rule filter_cong)
    fix i assume "i \<in> set [Suc n ..< Suc n + length xs]"
    then have "i - n = Suc (i - Suc n)" by auto
    then show "P ((x # xs) ! (i - n)) = P (xs ! (i - Suc n))" by simp
  qed simp
  moreover have "[n ..< n + length (x # xs)] = n # [Suc n ..< Suc n + length xs]"
    by (simp add: upt_conv_Cons del: upt_Suc)
  ultimately show ?case using Cons.IH [of "Suc n"] by (simp del: upt_Suc)
qed

lemma instrument_log:
  "fst (dispatch cbs m w) = None \<Longrightarrow>
   dispatch (instrument i cbs) m (log, w) =
     (None, (log @ map (\<lambda>j. (j, m)) (map fst (filter (\<lambda>p. snd p \<noteq> None) (enumerate i cbs))),
             snd (dispatch cbs m w)))"
proof (induction cbs arbitrary: i log w)
  case Nil show ?case by simp
next
  case (Cons c cbs)
  show ?case
  proof (cases c)
    case None
    then show ?thesis using Cons by simp
  next
    case (Some cb)
    obtain r w' where cb: "cb m w = (r, w')" by (cases "cb m w")
    have r: "r = None" using Cons.prems Some cb by (cases r) simp_all
    have "fst (dispatch cbs m w') = None" using Cons.prems Some cb r by simp
    from Cons.IH [OF this, of "Suc i" "log @ [(i, m)]"]
    show ?thesis using Some cb r by (simp add: traced_def)
  qed
qed

lemma length_filter_enumerate:
  "length (filter (\<lambda>p. P (snd p)) (enumerate n xs)) = length (filter P xs)"
  by (induction xs arbitrary: n) simp_all

lemma active_slots_enumerate:
  "active_slots cbs = map fst (filter (\<lambda>p. snd p \<noteq> None) (enumerate 0 cbs))"
  using enumerate_filter [of "\<lambda>c. c \<noteq> None" 0 cbs] by (simp add: active_slots_def)

lemma length_active_slots:
  "length (active_slots cbs) = length (filter (\<lambda>c. c \<noteq> None) cbs)"
  using length_filter_enumerate [of "\<lambda>c. c \<noteq> None" 0 cbs]
  by (simp add: active_slots_enumerate)

lemma instrument_faithful:
  "fst (dispatch (instrument i cbs) m (log, w)) = fst (dispatch cbs m w)
   \<and> snd (snd (dispatch (instrument i cbs) m (log, w))) = snd (dispatch cbs m w)"
proof (induction cbs arbitrary: i log w)
  case Nil show ?case by simp
next
  case (Cons c cbs)
  show ?case
  proof (cases c)
    case None
    then show ?thesis using Cons by simp
  next
    case (Some cb)
    obtain r w' where cb: "cb m w = (r, w')" by (cases "cb m w")
    show ?thesis
    proof (cases r)
      case None
      then show ?thesis using Some cb Cons [of "Suc i" "log @ [(i, m)]" w'] by (simp add: traced_def)
    next
      case (Some e)
      then show ?thesis using \<open>c = Some cb\<close> cb by (simp add: traced_def)
    qed
  qed
qed

text \<open>
  C6, the claim as stated, at a registry whose two slots are both active and whose first
  callback raises: one dispatch makes one invocation, of slot 0, and none of slot 1.
\<close>

theorem dispatch_fanout_counterexample:
  "invocations [Some (failing_callback (Exception ''boom'')), Some noop_callback] ''hello'' () = [(0, ''hello'')]
   \<and> active_slots [Some (failing_callback (Exception ''boom'')), Some (noop_callback :: unit callback)] = [0, 1]"
  by (simp add: invocations_def active_slots_def traced_def failing_callback_def)

text \<open>
  C6, amended. When no callback raises, one dispatch invokes the callbacks of the active
  slots, in slot order, each once and each with the message of the record as it is; no
  slot holding \<open>None\<close> is invoked; the number of invocations is the number of active
  slots; and the record is returned as it was given.
\<close>

theorem dispatch_fanout:
  assumes "fst (dispatch cbs m w) = None"
  shows "invocations cbs m w = map (\<lambda>i. (i, m)) (active_slots cbs)
     \<and> length (invocations cbs m w) = length (filter (\<lambda>c. c \<noteq> None) cbs)
     \<and> distinct (active_slots cbs)
     \<and> set (active_slots cbs) = {i. i < length cbs \<and> cbs ! i \<noteq> None}
     \<and> fst (intercept_message cbs \<lparr>message = m, level_no = l\<rparr> w)
         = Inr \<lparr>message = m, level_no = l\<rparr>"
proof -
  have i: "invocations cbs m w = map (\<lambda>i. (i, m)) (active_slots cbs)"
    using instrument_log [OF assms, of 0 "[]"] by (simp add: invocations_def active_slots_enumerate)
  have d: "distinct (active_slots cbs)"
    by (simp add: active_slots_def)
  have s: "set (active_slots cbs) = {i. i < length cbs \<and> cbs ! i \<noteq> None}"
    by (auto simp: active_slots_def)
  have r: "fst (intercept_message cbs \<lparr>message = m, level_no = l\<rparr> w)
      = Inr \<lparr>message = m, level_no = l\<rparr>"
    using assms by (cases "dispatch cbs m w") (simp add: intercept_message_def)
  show ?thesis using i d s r by (simp add: length_active_slots)
qed

theorem dispatch_fanout_witness:
  "fst (dispatch [Some (recording_callback 0), None, Some (recording_callback 2)] ''hello'' []) = None
   \<and> invocations [Some (recording_callback 0), None, Some (recording_callback 2)] ''hello'' []
       = [(0, ''hello''), (2, ''hello'')]
   \<and> snd (dispatch [Some (recording_callback 0), None, Some (recording_callback 2)] ''hello'' [])
       = [(0, ''hello''), (2, ''hello'')]"
  using dispatch_fanout [of "[Some (recording_callback 0), None, Some (recording_callback 2)]" "''hello''" "[]"]
  by (simp add: recording_callback_def active_slots_def)

section \<open>Properties of the stream driver\<close>

subsection \<open>The exit sequence\<close>

lemma logger_call_eq:
  "logger_call lvl text s =
     (fst (dispatch (callbacks s) text (evloop s)),
      s\<lparr>evloop := snd (dispatch (callbacks s) text (evloop s))\<rparr>)"
  by (cases "dispatch (callbacks s) text (evloop s)")
     (auto simp: logger_call_def intercept_message_def split: option.splits)



lemma streaming_evloop [simp]: "streaming n (s\<lparr>evloop := w\<rparr>) = streaming n s"
  by (simp add: streaming_def)

lemma streaming_agent_task [simp]: "streaming n (s\<lparr>agent_task := t\<rparr>) = streaming n s"
  by (simp add: streaming_def)














lemma event_stream_start_eq:
  "event_stream_start cbs w prompt prog =
    (let s = \<lparr>callbacks = cbs @ [Some (log_callback (length cbs))],
               evloop = w\<lparr>queues := (queues w)(length cbs := [])\<rparr>, qid = length cbs,
               callback_id = int (length cbs), agent_task = NotCreated, pc = AtGet,
               effects = []\<rparr>
     in if strip prompt = []
        then (case logger_call 30 ''Empty prompt provided.'' s of
                (Some e, s') \<Rightarrow> raised_in_try e s'
              | (None, s') \<Rightarrow>
                  yield_frame EmptyPromptFrame ''Empty prompt provided.'' AtYieldTerminal s')
        else (case logger_call 20 ''Processing your request...'' s of
                (Some e, s') \<Rightarrow> raised_in_try e s'
              | (None, s') \<Rightarrow> loop_head (s'\<lparr>agent_task := Running prog\<rparr>)))"
  by (simp add: event_stream_start_def add_log_callback_def Let_def)




lemma blank_run:
  "effects (event_stream [] idle_world ''   '' Return [Resume])
   = [Yielded EmptyPromptFrame (frame ''Empty prompt provided.''), Unregistered 0, CleanupCalled]"
  by code_simp

lemma blank_run_finished:
  "pc (event_stream [] idle_world ''   '' Return [Resume]) = Finished None"
  by code_simp





subsection \<open>The blank prompt\<close>

lemma quiet_dispatch: "quiet cbs \<Longrightarrow> fst (dispatch cbs m w) = None"
proof (induction cbs arbitrary: w)
  case Nil
  show ?case by simp
next
  case (Cons c cbs)
  have q: "quiet cbs" using Cons.prems by (simp add: quiet_def)
  show ?case
  proof (cases c)
    case None
    then show ?thesis using Cons.IH [OF q] by simp
  next
    case (Some cb)
    have "fst (cb m w) = None" using Cons.prems Some by (simp add: quiet_def)
    then show ?thesis using Some Cons.IH [OF q] by (cases "cb m w") simp
  qed
qed

lemma quiet_register: "quiet cbs \<Longrightarrow> quiet (cbs @ [Some (log_callback q)])"
  by (auto simp: quiet_def log_callback_def)

lemma quiet_remove: "quiet cbs \<Longrightarrow> quiet (remove_log_callback cbs h)"
  by (auto simp: quiet_def remove_log_callback_def dest: set_update_subset_insert [THEN subsetD])

lemma quiet_logger_call:
  "quiet (callbacks s) \<Longrightarrow>
   logger_call lvl text s = (None, s\<lparr>evloop := snd (dispatch (callbacks s) text (evloop s))\<rparr>)"
  by (simp add: logger_call_eq quiet_dispatch)

lemma strip_blank: "strip s = [] \<longleftrightarrow> (\<forall>c \<in> set s. isspace c)"
proof -
  have "(\<forall>c \<in> set (dropWhile isspace s). isspace c) \<longleftrightarrow> dropWhile isspace s = []"
  proof
    assume a: "\<forall>c \<in> set (dropWhile isspace s). isspace c"
    show "dropWhile isspace s = []"
    proof (rule ccontr)
      assume n: "dropWhile isspace s \<noteq> []"
      then have "\<not> isspace (hd (dropWhile isspace s))" by (rule hd_dropWhile)
      moreover have "hd (dropWhile isspace s) \<in> set (dropWhile isspace s)" using n by simp
      ultimately show False using a by blast
    qed
  next
    assume "dropWhile isspace s = []"
    then show "\<forall>c \<in> set (dropWhile isspace s). isspace c"
      by (auto dest: set_dropWhileD)
  qed
  then show ?thesis by (simp add: strip_def dropWhile_eq_Nil_conv)
qed

lemma empty_prompt_start:
  assumes "strip prompt = []" and "quiet cbs"
  shows "\<exists>w'. event_stream_start cbs w prompt prog =
      \<lparr>callbacks = cbs @ [Some (log_callback (length cbs))], evloop = w', qid = length cbs,
       callback_id = int (length cbs), agent_task = NotCreated, pc = AtYieldTerminal,
       effects = [Yielded EmptyPromptFrame (frame ''Empty prompt provided.'')]\<rparr>"
  using assms quiet_register [of cbs "length cbs"]
  by (simp add: event_stream_start_eq Let_def quiet_logger_call yield_frame_def)

lemma empty_prompt_step: "empty_prompt_state n s \<Longrightarrow> empty_prompt_state n (step ev s)"
  by (cases ev) (auto simp: empty_prompt_state_def finally_block_def)

lemma empty_prompt_run: "empty_prompt_state n s \<Longrightarrow> empty_prompt_state n (run sched s)"
  by (induction sched arbitrary: s) (simp_all add: empty_prompt_step)

lemma run_append: "run (xs @ ys) s = run ys (run xs s)"
  by (induction xs arbitrary: s) simp_all

lemma empty_prompt_close:
  "empty_prompt_state n s \<Longrightarrow>
   pc (step Resume s) = Finished None
   \<and> effects (step Resume s) = [Yielded EmptyPromptFrame (frame ''Empty prompt provided.''),
        Unregistered (int n), CleanupCalled]"
  by (auto simp: empty_prompt_state_def finally_block_def)

text \<open>
  C3, the claim as stated, at the prompt of three spaces: \<open>cleanup()\<close> is not skipped.
  The agent object is constructed before the prompt is looked at, and the \<open>finally\<close>
  block calls its \<open>cleanup()\<close> on the early return as on every other exit.
\<close>

theorem empty_prompt_cleanup_invoked:
  "CleanupCalled \<in> set (effects (event_stream [] idle_world ''   '' Return [Resume]))
   \<and> finished (event_stream [] idle_world ''   '' Return [Resume])"
  by (simp add: blank_run blank_run_finished)

text \<open>
  C3, amended. For a prompt that is empty or all whitespace, and a registry in which no
  callback raises: under every schedule the client receives the one frame
  \<open>data: Empty prompt provided.\<close> and nothing else, no task is ever created for the
  agent's run, and once the generator is resumed the stream closes, after the
  unregistration and one call of \<open>cleanup()\<close>.
\<close>

theorem empty_prompt_stream:
  assumes "strip prompt = []" and "quiet cbs"
  shows "frames_of (effects (event_stream cbs w prompt prog sched))
       = [frame ''Empty prompt provided.'']
     \<and> agent_task (event_stream cbs w prompt prog sched) = NotCreated
     \<and> finished (event_stream cbs w prompt prog (sched @ [Resume]))
     \<and> effects (event_stream cbs w prompt prog (sched @ [Resume]))
       = [Yielded EmptyPromptFrame (frame ''Empty prompt provided.''),
          Unregistered (int (length cbs)), CleanupCalled]"
proof -
  have "empty_prompt_state (length cbs) (event_stream_start cbs w prompt prog)"
    using empty_prompt_start [OF assms, of w prog] by (auto simp: empty_prompt_state_def)
  then have i: "empty_prompt_state (length cbs) (event_stream cbs w prompt prog sched)"
    unfolding event_stream_def by (rule empty_prompt_run)
  have a: "event_stream cbs w prompt prog (sched @ [Resume])
      = step Resume (event_stream cbs w prompt prog sched)"
    by (simp add: event_stream_def run_append)
  show ?thesis
    using i empty_prompt_close [OF i] unfolding a
    by (auto simp: empty_prompt_state_def)
qed

theorem empty_prompt_stream_witness:
  "strip ''   '' = [] \<and> quiet [Some (log_callback 0)]
   \<and> frames_of (effects (event_stream [Some (log_callback 0)] idle_world ''   '' Return [RunPut, RunAgent]))
       = [frame ''Empty prompt provided.'']
   \<and> agent_task (event_stream [Some (log_callback 0)] idle_world ''   '' Return [RunPut, RunAgent]) = NotCreated
   \<and> finished (event_stream [Some (log_callback 0)] idle_world ''   '' Return ([RunPut, RunAgent] @ [Resume]))"
  using empty_prompt_stream [of "''   ''" "[Some (log_callback 0)]" idle_world Return "[RunPut, RunAgent]"]
  by (simp add: strip_def isspace_def quiet_def log_callback_def)

subsection \<open>An agent that raises\<close>

lemma quiet_final_message:
  "quiet_streaming n s \<Longrightarrow> quiet_inv n (final_message s)"
  by (auto simp: quiet_streaming_def quiet_inv_def final_message_def quiet_logger_call
      yield_frame_def)

lemma quiet_after_loop:
  "quiet_streaming n s \<Longrightarrow> task_done (agent_task s) \<Longrightarrow> quiet_inv n (after_loop s)"
  by (simp add: after_loop_def quiet_final_message)

lemma quiet_at_get: "quiet_streaming n s \<Longrightarrow> quiet_inv n (s\<lparr>pc := AtGet\<rparr>)"
  by (auto simp: quiet_streaming_def quiet_inv_def)

lemma quiet_loop_head: "quiet_streaming n s \<Longrightarrow> quiet_inv n (loop_head s)"
  by (auto simp: loop_head_def quiet_after_loop quiet_at_get)

lemma quiet_inv_streaming:
  "quiet_inv n s \<Longrightarrow> pc s = AtGet \<or> pc s = AtYieldMessage \<Longrightarrow> quiet_streaming n s"
  by (auto simp: quiet_inv_def quiet_streaming_def)

lemma map_snoc_message:
  "es = map (Yielded MessageFrame) ms \<Longrightarrow>
   \<exists>ms'. es @ [Yielded MessageFrame f] = map (Yielded MessageFrame) ms'"
  by (rule exI [of _ "ms @ [f]"]) simp

lemma quiet_step: "quiet_inv n s \<Longrightarrow> quiet_inv n (step ev s)"
proof (cases ev)
  case RunPut
  assume "quiet_inv n s"
  then show ?thesis using RunPut by (simp add: quiet_inv_def)
next
  case RunAgent
  assume "quiet_inv n s"
  then show ?thesis using RunAgent
    by (auto simp: quiet_inv_def split: task.splits prod.splits)
next
  case Deliver
  assume i: "quiet_inv n s"
  show ?thesis
  proof (cases "pc s = AtGet \<and> queues (evloop s) (qid s) \<noteq> []")
    case True
    then obtain m rest where q: "queues (evloop s) (qid s) = m # rest"
      by (cases "queues (evloop s) (qid s)") auto
    have "quiet_streaming n s" using i True quiet_inv_streaming by blast
    then show ?thesis using Deliver True q map_snoc_message
      by (auto simp: yield_frame_def quiet_inv_def quiet_streaming_def)
  next
    case False
    then have "step Deliver s = s" by (auto split: pc.splits list.splits)
    then show ?thesis using i Deliver by simp
  qed
next
  case Timeout
  assume i: "quiet_inv n s"
  show ?thesis
  proof (cases "pc s = AtGet")
    case True
    then have "quiet_streaming n s" using i quiet_inv_streaming by blast
    then show ?thesis using Timeout True by (simp add: quiet_after_loop quiet_loop_head)
  next
    case False
    then have "step Timeout s = s" by (auto split: pc.splits)
    then show ?thesis using i Timeout by simp
  qed
next
  case Resume
  assume i: "quiet_inv n s"
  show ?thesis
  proof (cases "pc s")
    case AtGet
    then show ?thesis using i Resume by simp
  next
    case AtYieldMessage
    then have "quiet_streaming n s" using i quiet_inv_streaming by blast
    then show ?thesis using Resume AtYieldMessage by (simp add: quiet_loop_head)
  next
    case AtAwaitAgent
    then show ?thesis using i by (simp add: quiet_inv_def)
  next
    case AtYieldTerminal
    then show ?thesis using i Resume
      by (auto simp: quiet_inv_def finally_block_def quiet_remove)
  next
    case (Finished x)
    then show ?thesis using i Resume by simp
  qed
qed

lemma quiet_run: "quiet_inv n s \<Longrightarrow> quiet_inv n (run sched s)"
  by (induction sched arbitrary: s) (simp_all add: quiet_step)

lemma quiet_start:
  assumes "strip prompt \<noteq> []" and "quiet cbs"
  shows "quiet_inv (length cbs) (event_stream_start cbs w prompt prog)"
proof -
  define s where "s = \<lparr>callbacks = cbs @ [Some (log_callback (length cbs))],
      evloop = snd (dispatch (cbs @ [Some (log_callback (length cbs))])
                 ''Processing your request...'' (w\<lparr>queues := (queues w)(length cbs := [])\<rparr>)),
      qid = length cbs, callback_id = int (length cbs), agent_task = Running prog,
      pc = AtGet, effects = []\<rparr>"
  have "event_stream_start cbs w prompt prog = loop_head s"
    using assms quiet_register [of cbs "length cbs"]
    by (simp add: event_stream_start_eq Let_def quiet_logger_call s_def)
  moreover have "quiet_streaming (length cbs) s"
    using assms quiet_register [of cbs "length cbs"] by (simp add: quiet_streaming_def s_def)
  ultimately show ?thesis by (simp add: quiet_loop_head)
qed

lemma raising_run:
  "effects (event_stream [] idle_world ''hello'' (Raise (Exception ''boom''))
      [RunPut, RunAgent, Deliver, Resume, Resume])
   = [Yielded MessageFrame (frame ''Processing your request...''),
      Yielded CompletedFrame (frame ''Request processing completed.''),
      Unregistered 0, CleanupCalled]"
  by code_simp

lemma raising_run_task:
  "agent_task (event_stream [] idle_world ''hello'' (Raise (Exception ''boom''))
      [RunPut, RunAgent, Deliver, Resume, Resume]) = DoneExn (Exception ''boom'')"
  by code_simp

lemma raising_run_finished:
  "pc (event_stream [] idle_world ''hello'' (Raise (Exception ''boom''))
      [RunPut, RunAgent, Deliver, Resume, Resume]) = Finished None"
  by code_simp

text \<open>
  C8. The claim does not hold of the code. The loop is left only once
  \<open>agent_task.done()\<close> holds, so \<open>await agent_task\<close>, which sits under
  \<open>if not agent_task.done()\<close>, is never reached and the exception stored in the task is
  never raised in the generator. For a non-blank prompt and a registry in which no
  callback raises, whatever the agent does and under every schedule: no error frame is
  ever yielded, the generator is never at \<open>await agent_task\<close>, and when it has finished
  its last frame is the completed one. The unregistration and \<open>cleanup()\<close> do follow.
\<close>

theorem agent_error_not_surfaced:
  assumes "strip prompt \<noteq> []" and "quiet cbs"
  shows "(\<forall>text. Yielded ErrorFrame text \<notin> set (effects (event_stream cbs w prompt prog sched)))
     \<and> pc (event_stream cbs w prompt prog sched) \<noteq> AtAwaitAgent
     \<and> (finished (event_stream cbs w prompt prog sched) \<longrightarrow>
          (\<exists>ms. effects (event_stream cbs w prompt prog sched)
             = map (Yielded MessageFrame) ms
               @ [Yielded CompletedFrame (frame ''Request processing completed.''),
                  Unregistered (int (length cbs)), CleanupCalled]))"
proof -
  define s where "s = event_stream cbs w prompt prog sched"
  have i: "quiet_inv (length cbs) s"
    unfolding s_def event_stream_def using quiet_start [OF assms] by (rule quiet_run)
  have "(\<forall>text. Yielded ErrorFrame text \<notin> set (effects s)) \<and> pc s \<noteq> AtAwaitAgent
     \<and> (finished s \<longrightarrow>
          (\<exists>ms. effects s = map (Yielded MessageFrame) ms
               @ [Yielded CompletedFrame (frame ''Request processing completed.''),
                  Unregistered (int (length cbs)), CleanupCalled]))"
  proof (cases "pc s")
    case (Finished x)
    then show ?thesis using i by (cases x) (auto simp: quiet_inv_def)
  qed (use i in \<open>auto simp: quiet_inv_def\<close>)
  then show ?thesis unfolding s_def .
qed

text \<open>
  The agent that raises \<open>boom\<close> at once: its task ends with the exception, and the client
  is told that processing completed.
\<close>

theorem agent_error_not_surfaced_witness:
  "strip ''hello'' \<noteq> [] \<and> quiet ([] :: world registry)
   \<and> agent_task (event_stream [] idle_world ''hello'' (Raise (Exception ''boom''))
        [RunPut, RunAgent, Deliver, Resume, Resume]) = DoneExn (Exception ''boom'')
   \<and> finished (event_stream [] idle_world ''hello'' (Raise (Exception ''boom''))
        [RunPut, RunAgent, Deliver, Resume, Resume])
   \<and> effects (event_stream [] idle_world ''hello'' (Raise (Exception ''boom''))
        [RunPut, RunAgent, Deliver, Resume, Resume])
      = map (Yielded MessageFrame) [frame ''Processing your request...'']
        @ [Yielded CompletedFrame (frame ''Request processing completed.''),
           Unregistered (int (length ([] :: world registry))), CleanupCalled]"
  using agent_error_not_surfaced [of "''hello''" "[]" idle_world "Raise (Exception ''boom'')"
      "[RunPut, RunAgent, Deliver, Resume, Resume]"]
  by (simp add: raising_run raising_run_task raising_run_finished strip_def isspace_def quiet_def)

subsection \<open>The exit sequence, for every run\<close>








subsection \<open>Lines lost between the callback and the queue\<close>

text \<open>
  C4. The claim does not hold of the code under every schedule. The callback does not
  enqueue the line; it creates a task that will. An agent that suspends twice, logs two
  lines and returns leaves two put tasks behind; when the generator next looks, the task
  is done and the queue is empty, so it leaves the loop. The client receives two frames,
  and the two lines are still waiting to be put.
\<close>

theorem two_lines_dropped:
  "strip ''hello'' \<noteq> []
   \<and> finished (event_stream [] idle_world ''hello''
        (Suspend (Suspend (Log ''line1'' (Log ''line2'' Return))))
        [RunPut, RunAgent, RunAgent, RunAgent, Deliver, Resume, Resume])
   \<and> agent_task (event_stream [] idle_world ''hello''
        (Suspend (Suspend (Log ''line1'' (Log ''line2'' Return))))
        [RunPut, RunAgent, RunAgent, RunAgent, Deliver, Resume, Resume]) = DoneOk
   \<and> frames_of (effects (event_stream [] idle_world ''hello''
        (Suspend (Suspend (Log ''line1'' (Log ''line2'' Return))))
        [RunPut, RunAgent, RunAgent, RunAgent, Deliver, Resume, Resume]))
      = [frame ''Processing your request...'', frame ''Request processing completed.'']
   \<and> pending (evloop (event_stream [] idle_world ''hello''
        (Suspend (Suspend (Log ''line1'' (Log ''line2'' Return))))
        [RunPut, RunAgent, RunAgent, RunAgent, Deliver, Resume, Resume]))
      = [(0, ''line1''), (0, ''line2''), (0, ''Request processing completed.'')]"
  by code_simp

text \<open>
  C5. The claim does not hold of the code, for the same reason. The terminal frame does
  follow the completion of the task and an empty queue, but an empty queue does not mean
  that every line has been put: here \<open>m1\<close> is delivered, and \<open>m2\<close>, logged in the last
  stretch of the agent, is not; at the end the queue is empty and the put task of \<open>m2\<close>
  has not run.
\<close>

theorem last_message_dropped:
  "finished (event_stream [] idle_world ''hello''
        (Log ''m1'' (Suspend (Suspend (Suspend (Suspend (Suspend (Log ''m2'' Return)))))))
        [RunPut, RunAgent, RunPut, Deliver, Resume, RunAgent, RunAgent, RunAgent, RunAgent,
         Deliver, RunAgent, Resume, Resume])
   \<and> agent_task (event_stream [] idle_world ''hello''
        (Log ''m1'' (Suspend (Suspend (Suspend (Suspend (Suspend (Log ''m2'' Return)))))))
        [RunPut, RunAgent, RunPut, Deliver, Resume, RunAgent, RunAgent, RunAgent, RunAgent,
         Deliver, RunAgent, Resume, Resume]) = DoneOk
   \<and> frames_of (effects (event_stream [] idle_world ''hello''
        (Log ''m1'' (Suspend (Suspend (Suspend (Suspend (Suspend (Log ''m2'' Return)))))))
        [RunPut, RunAgent, RunPut, Deliver, Resume, RunAgent, RunAgent, RunAgent, RunAgent,
         Deliver, RunAgent, Resume, Resume]))
      = [frame ''Processing your request...'', frame ''m1'',
         frame ''Request processing completed.'']
   \<and> queues (evloop (event_stream [] idle_world ''hello''
        (Log ''m1'' (Suspend (Suspend (Suspend (Suspend (Suspend (Log ''m2'' Return)))))))
        [RunPut, RunAgent, RunPut, Deliver, Resume, RunAgent, RunAgent, RunAgent, RunAgent,
         Deliver, RunAgent, Resume, Resume])) 0 = []
   \<and> pending (evloop (event_stream [] idle_world ''hello''
        (Log ''m1'' (Suspend (Suspend (Suspend (Suspend (Suspend (Log ''m2'' Return)))))))
        [RunPut, RunAgent, RunPut, Deliver, Resume, RunAgent, RunAgent, RunAgent, RunAgent,
         Deliver, RunAgent, Resume, Resume]))
      = [(0, ''m2''), (0, ''Request processing completed.'')]"
  by code_simp

section \<open>Properties of the logger\<close>

lemma reconfigure_snoc:
  "reconfigure (rs @ [(p, f, n)]) c =
     [\<lparr>handler_sink = Stderr, handler_level = p\<rparr>,
      \<lparr>handler_sink = LogFile (''logs/'' @ n @ ''.log''), handler_level = f\<rparr>]"
  by (induction rs arbitrary: c)
     (auto simp: define_log_level_def remove_handlers_def add_handler_def Let_def)

lemma log_call_module_logger:
  "admitted c lvl \<Longrightarrow> log_call module_logger c cbs lvl text w = dispatch cbs text w"
  by (cases "dispatch cbs text w")
     (auto simp: log_call_def module_logger_def patch_def define_log_level_def base_logger_def
        Let_def intercept_message_def split: option.splits)

lemma log_call_base_logger: "log_call base_logger c cbs lvl text w = (None, w)"
  by (simp add: log_call_def base_logger_def)

text \<open>
  C9, the claim as stated, at the logger that a call of \<open>define_log_level\<close> returns: it
  is \<open>_logger\<close>, which carries no patcher, so a message logged through it at an
  admitted level reaches no observer.
\<close>

theorem reconfigured_logger_not_intercepted:
  "log_call (snd (define_log_level INFO DEBUG ''20250101120000'' []))
      (fst (define_log_level INFO DEBUG ''20250101120000'' []))
      [Some (recording_callback 0)] INFO ''hello'' [] = (None, [])
   \<and> admitted (fst (define_log_level INFO DEBUG ''20250101120000'' [])) INFO"
  by (simp add: log_call_base_logger define_log_level_def Let_def admitted_def
      remove_handlers_def add_handler_def)

text \<open>
  C9, amended. After any number of calls of \<open>define_log_level\<close>, a message logged
  through the module-level \<open>logger\<close> at a level that one of the two handlers of the last
  call admits goes through the registry exactly as one dispatch does; the logger object
  that the last call returned passes it to no observer.
\<close>

theorem module_logger_intercepts_once:
  assumes "level_number p \<le> level_number lvl \<or> level_number f \<le> level_number lvl"
  shows "log_call module_logger (reconfigure (rs @ [(p, f, n)]) c) cbs lvl text w
       = dispatch cbs text w
     \<and> log_call (snd (define_log_level p f n (reconfigure rs c)))
         (reconfigure (rs @ [(p, f, n)]) c) cbs lvl text w = (None, w)"
proof -
  have "admitted (reconfigure (rs @ [(p, f, n)]) c) lvl"
    using assms unfolding reconfigure_snoc by (auto simp: admitted_def)
  then show ?thesis
    by (simp add: log_call_module_logger log_call_base_logger define_log_level_def Let_def)
qed

theorem module_logger_intercepts_once_witness:
  "(level_number ERROR \<le> level_number WARNING \<or> level_number WARNING \<le> level_number WARNING)
   \<and> log_call module_logger
        (reconfigure ([(INFO, DEBUG, ''a''), (DEBUG, DEBUG, ''b'')] @ [(ERROR, WARNING, ''c'')]) [])
        [Some (recording_callback 0), None, Some (recording_callback 2)] WARNING ''hello'' []
      = (None, [(0, ''hello''), (2, ''hello'')])"
  using module_logger_intercepts_once [of ERROR WARNING WARNING
      "[(INFO, DEBUG, ''a''), (DEBUG, DEBUG, ''b'')]" "''c''" "[]"
      "[Some (recording_callback 0), None, Some (recording_callback 2)]" "''hello''" "[]"]
  by (simp add: recording_callback_def)

end
